theory Spec2Isabelle
  imports Main
begin

section \<open>Rectangle\<close>

text \<open>
  \<^verbatim>\<open>function Rectangle(width, height)\<close> stores its two arguments in the fields
  \<^verbatim>\<open>width\<close> and \<^verbatim>\<open>height\<close> of the new object and gives it the method
  \<^verbatim>\<open>getArea = () => this.width * this.height\<close>. The arrow function closes over the
  object, so a call reads the fields the object has at the time of the call.
  The numbers are kept abstract: any type with a multiplication.
\<close>

record 'n rectangle =
  width :: 'n
  height :: 'n

definition Rectangle :: "'n \<Rightarrow> 'n \<Rightarrow> 'n rectangle" where
  "Rectangle w h = \<lparr>width = w, height = h\<rparr>"

definition getArea :: "('n::times) rectangle \<Rightarrow> 'n" where
  "getArea this = width this * height this"

section \<open>JSON bridge\<close>

text \<open>
  \<^verbatim>\<open>fromJSON(proto, json)\<close> is
  \<^verbatim>\<open>const obj = { ...JSON.parse(json) }; Object.setPrototypeOf(obj, proto); return obj;\<close>.
  \<^verbatim>\<open>JSON.parse\<close> belongs to the host, not to this module: it is the parameter
  \<open>parse\<close>, which returns the error it throws (\<open>Inl\<close>) or the value parsed (\<open>Inr\<close>).
  Numbers are kept abstract (\<open>'n\<close>). An object value lists its own properties in order.
\<close>

datatype 'n json =
  JNull | JBool bool | JNum 'n | JStr string | JArr "'n json list"
  | JObj "(string \<times> 'n json) list"

fun show_nat :: "nat \<Rightarrow> string" where
  "show_nat n =
     (if n < 10 then [''0123456789'' ! n]
      else show_nat (n div 10) @ [''0123456789'' ! (n mod 10)])"

text \<open>
  The spread \<^verbatim>\<open>{ ...x }\<close> copies the own enumerable properties of \<^verbatim>\<open>x\<close> into a new
  object: the fields of an object, the elements of an array and the characters of a
  string under their indices, and nothing for \<^verbatim>\<open>null\<close>, a boolean or a number.
\<close>

fun spread :: "'n json \<Rightarrow> (string \<times> 'n json) list" where
  "spread (JObj kvs) = kvs"
| "spread (JArr xs) = zip (map show_nat [0..<length xs]) xs"
| "spread (JStr cs) = zip (map show_nat [0..<length cs]) (map (\<lambda>c. JStr [c]) cs)"
| "spread JNull = []"
| "spread (JBool b) = []"
| "spread (JNum n) = []"

text \<open>
  The result: its own properties, and the prototype it delegates to. The prototype is
  given by what a property read on it yields.
\<close>

record ('n, 'm) parsed =
  props :: "(string \<times> 'n json) list"
  prototype :: "string \<Rightarrow> 'm option"

definition fromJSON ::
  "(string \<Rightarrow> 'e + 'n json) \<Rightarrow> (string \<Rightarrow> 'm option) \<Rightarrow> string \<Rightarrow> 'e + ('n, 'm) parsed" where
  "fromJSON parse proto json =
     (case parse json of
        Inl e \<Rightarrow> Inl e
      | Inr x \<Rightarrow> Inr \<lparr>props = spread x, prototype = proto\<rparr>)"

text \<open>
  A property read on the result: an own property (\<open>Inl\<close>) if there is one, else what
  the prototype yields (\<open>Inr\<close>).
\<close>

definition get_prop :: "('n, 'm) parsed \<Rightarrow> string \<Rightarrow> ('n json + 'm) option" where
  "get_prop obj k =
     (case map_of (props obj) k of
        Some x \<Rightarrow> Some (Inl x)
      | None \<Rightarrow> map_option Inr (prototype obj k))"

section \<open>CSS selector builder\<close>

subsection \<open>Objects and the store\<close>

text \<open>
  The object literal \<^verbatim>\<open>cssSelectorBuilder\<close> has the data properties \<^verbatim>\<open>string\<close>,
  \<^verbatim>\<open>elementNum\<close>, \<^verbatim>\<open>idNum\<close> and \<^verbatim>\<open>pseodoEl\<close>. It has no property \<^verbatim>\<open>order\<close>:
  reading it gives \<^verbatim>\<open>undefined\<close>, which is \<open>None\<close> here. The counters start at 0 and
  are only ever incremented, so they are natural numbers.
\<close>

record literal =
  string :: string
  elementNum :: nat
  idNum :: nat
  pseodoEl :: nat
  order :: "nat option"

text \<open>
  Every method starts with \<^verbatim>\<open>Object.create(cssSelectorBuilder)\<close>: a new object with no
  property of its own, whose prototype is the literal. A property it has not been
  assigned is read from the literal.
\<close>

record created =
  own_string :: "string option"
  own_elementNum :: "nat option"
  own_idNum :: "nat option"
  own_pseodoEl :: "nat option"
  own_order :: "nat option"

datatype ref = Builder | Obj nat

record store =
  builder :: literal
  objs :: "created list"

datatype exn = Error string

definition no_props :: created where
  "no_props = \<lparr>own_string = None, own_elementNum = None, own_idNum = None,
                own_pseodoEl = None, own_order = None\<rparr>"

definition cssSelectorBuilder :: literal where
  "cssSelectorBuilder = \<lparr>string = [], elementNum = 0, idNum = 0, pseodoEl = 0, order = None\<rparr>"

definition initial :: store where
  "initial = \<lparr>builder = cssSelectorBuilder, objs = []\<rparr>"

text \<open>
  A reference is valid in a store that holds its object. A program only has references
  to objects that exist, so the theorems are about valid references; a reference that
  is not valid reads as an object with no property of its own, and a write to it does
  nothing.
\<close>

definition valid :: "store \<Rightarrow> ref \<Rightarrow> bool" where
  "valid s r = (case r of Builder \<Rightarrow> True | Obj n \<Rightarrow> n < length (objs s))"

definition own :: "store \<Rightarrow> nat \<Rightarrow> created" where
  "own s n = (if n < length (objs s) then objs s ! n else no_props)"

definition Object_create :: "store \<Rightarrow> store \<times> ref" where
  "Object_create s = (s\<lparr>objs := objs s @ [no_props]\<rparr>, Obj (length (objs s)))"

subsection \<open>Property reads, through the prototype\<close>

definition string_of :: "store \<Rightarrow> ref \<Rightarrow> string" where
  "string_of s r = (case r of Builder \<Rightarrow> string (builder s)
     | Obj n \<Rightarrow> (case own_string (own s n) of Some x \<Rightarrow> x | None \<Rightarrow> string (builder s)))"

definition elementNum_of :: "store \<Rightarrow> ref \<Rightarrow> nat" where
  "elementNum_of s r = (case r of Builder \<Rightarrow> elementNum (builder s)
     | Obj n \<Rightarrow> (case own_elementNum (own s n) of Some x \<Rightarrow> x | None \<Rightarrow> elementNum (builder s)))"

definition idNum_of :: "store \<Rightarrow> ref \<Rightarrow> nat" where
  "idNum_of s r = (case r of Builder \<Rightarrow> idNum (builder s)
     | Obj n \<Rightarrow> (case own_idNum (own s n) of Some x \<Rightarrow> x | None \<Rightarrow> idNum (builder s)))"

definition pseodoEl_of :: "store \<Rightarrow> ref \<Rightarrow> nat" where
  "pseodoEl_of s r = (case r of Builder \<Rightarrow> pseodoEl (builder s)
     | Obj n \<Rightarrow> (case own_pseodoEl (own s n) of Some x \<Rightarrow> x | None \<Rightarrow> pseodoEl (builder s)))"

definition order_of :: "store \<Rightarrow> ref \<Rightarrow> nat option" where
  "order_of s r = (case r of Builder \<Rightarrow> order (builder s)
     | Obj n \<Rightarrow> (case own_order (own s n) of Some x \<Rightarrow> Some x | None \<Rightarrow> order (builder s)))"

subsection \<open>Property writes\<close>

definition set_string :: "store \<Rightarrow> ref \<Rightarrow> string \<Rightarrow> store" where
  "set_string s r x = (case r of Builder \<Rightarrow> s\<lparr>builder := (builder s)\<lparr>string := x\<rparr>\<rparr>
     | Obj n \<Rightarrow> s\<lparr>objs := (objs s)[n := (own s n)\<lparr>own_string := Some x\<rparr>]\<rparr>)"

definition set_elementNum :: "store \<Rightarrow> ref \<Rightarrow> nat \<Rightarrow> store" where
  "set_elementNum s r x = (case r of Builder \<Rightarrow> s\<lparr>builder := (builder s)\<lparr>elementNum := x\<rparr>\<rparr>
     | Obj n \<Rightarrow> s\<lparr>objs := (objs s)[n := (own s n)\<lparr>own_elementNum := Some x\<rparr>]\<rparr>)"

definition set_idNum :: "store \<Rightarrow> ref \<Rightarrow> nat \<Rightarrow> store" where
  "set_idNum s r x = (case r of Builder \<Rightarrow> s\<lparr>builder := (builder s)\<lparr>idNum := x\<rparr>\<rparr>
     | Obj n \<Rightarrow> s\<lparr>objs := (objs s)[n := (own s n)\<lparr>own_idNum := Some x\<rparr>]\<rparr>)"

definition set_pseodoEl :: "store \<Rightarrow> ref \<Rightarrow> nat \<Rightarrow> store" where
  "set_pseodoEl s r x = (case r of Builder \<Rightarrow> s\<lparr>builder := (builder s)\<lparr>pseodoEl := x\<rparr>\<rparr>
     | Obj n \<Rightarrow> s\<lparr>objs := (objs s)[n := (own s n)\<lparr>own_pseodoEl := Some x\<rparr>]\<rparr>)"

definition set_order :: "store \<Rightarrow> ref \<Rightarrow> nat \<Rightarrow> store" where
  "set_order s r x = (case r of Builder \<Rightarrow> s\<lparr>builder := (builder s)\<lparr>order := Some x\<rparr>\<rparr>
     | Obj n \<Rightarrow> s\<lparr>objs := (objs s)[n := (own s n)\<lparr>own_order := Some x\<rparr>]\<rparr>)"

subsection \<open>The methods\<close>

text \<open>
  Each method takes the store and the receiver \<^verbatim>\<open>this\<close>, and returns the store it
  leaves behind together with the exception it throws (\<open>Inl\<close>) or the object it returns
  (\<open>Inr\<close>). The statements are in the order of the source. The methods \<^verbatim>\<open>id\<close> and
  \<^verbatim>\<open>class\<close> are \<open>id_part\<close> and \<open>class_part\<close> here.
\<close>

definition order_message :: string where
  "order_message = ''Selector parts should be arranged in the following order: element, id, class, attribute, pseudo-class, pseudo-element''"

definition duplicate_message :: string where
  "duplicate_message = ''Element, id and pseudo-element should not occur more then one time inside the selector''"

text \<open>
  \<^verbatim>\<open>checkOrder(num) { if (this.order > num) throw new Error(...) }\<close>: the result is the
  exception thrown, if any. With \<^verbatim>\<open>this.order\<close> undefined the comparison is false.
\<close>

definition checkOrder :: "store \<Rightarrow> ref \<Rightarrow> nat \<Rightarrow> exn option" where
  "checkOrder s this num =
     (case order_of s this of
        None \<Rightarrow> None
      | Some k \<Rightarrow> if k > num then Some (Error order_message) else None)"

definition element :: "store \<Rightarrow> ref \<Rightarrow> string \<Rightarrow> store \<times> (exn + ref)" where
  "element s this v =
     (let (s1, obj) = Object_create s;
          s2 = set_elementNum s1 obj (elementNum_of s1 this + 1)
      in case checkOrder s2 this 1 of
           Some e \<Rightarrow> (s2, Inl e)
         | None \<Rightarrow>
             if elementNum_of s2 obj > 1 then (s2, Inl (Error duplicate_message))
             else
               let s3 = set_order s2 obj 1;
                   s4 = set_string s3 obj (string_of s3 this @ v)
               in (s4, Inr obj))"

definition id_part :: "store \<Rightarrow> ref \<Rightarrow> string \<Rightarrow> store \<times> (exn + ref)" where
  "id_part s this v =
     (let (s1, obj) = Object_create s;
          s2 = set_idNum s1 obj (idNum_of s1 this + 1)
      in case checkOrder s2 this 2 of
           Some e \<Rightarrow> (s2, Inl e)
         | None \<Rightarrow>
             let s3 = set_order s2 obj 2
             in if idNum_of s3 obj > 1 then (s3, Inl (Error duplicate_message))
                else
                  let s4 = set_string s3 obj (string_of s3 this @ ''#'' @ v)
                  in (s4, Inr obj))"

definition class_part :: "store \<Rightarrow> ref \<Rightarrow> string \<Rightarrow> store \<times> (exn + ref)" where
  "class_part s this v =
     (let (s1, obj) = Object_create s
      in case checkOrder s1 this 3 of
           Some e \<Rightarrow> (s1, Inl e)
         | None \<Rightarrow>
             let s2 = set_order s1 obj 3;
                 s3 = set_string s2 obj (string_of s2 this @ ''.'' @ v)
             in (s3, Inr obj))"

definition attr :: "store \<Rightarrow> ref \<Rightarrow> string \<Rightarrow> store \<times> (exn + ref)" where
  "attr s this v =
     (let (s1, obj) = Object_create s
      in case checkOrder s1 this 4 of
           Some e \<Rightarrow> (s1, Inl e)
         | None \<Rightarrow>
             let s2 = set_order s1 obj 4;
                 s3 = set_string s2 obj (string_of s2 this @ ''['' @ v @ '']'')
             in (s3, Inr obj))"

definition pseudoClass :: "store \<Rightarrow> ref \<Rightarrow> string \<Rightarrow> store \<times> (exn + ref)" where
  "pseudoClass s this v =
     (let (s1, obj) = Object_create s
      in case checkOrder s1 this 5 of
           Some e \<Rightarrow> (s1, Inl e)
         | None \<Rightarrow>
             let s2 = set_order s1 obj 5;
                 s3 = set_string s2 obj (string_of s2 this @ '':'' @ v)
             in (s3, Inr obj))"

definition pseudoElement :: "store \<Rightarrow> ref \<Rightarrow> string \<Rightarrow> store \<times> (exn + ref)" where
  "pseudoElement s this v =
     (let (s1, obj) = Object_create s;
          s2 = set_pseodoEl s1 obj (pseodoEl_of s1 this + 1)
      in case checkOrder s2 this 6 of
           Some e \<Rightarrow> (s2, Inl e)
         | None \<Rightarrow>
             let s3 = set_order s2 obj 6
             in if pseodoEl_of s3 obj > 1 then (s3, Inl (Error duplicate_message))
                else
                  let s4 = set_string s3 obj (string_of s3 this @ ''::'' @ v)
                  in (s4, Inr obj))"

definition combine :: "store \<Rightarrow> ref \<Rightarrow> string \<Rightarrow> ref \<Rightarrow> store \<times> ref" where
  "combine s selector1 combinator selector2 =
     (let (s1, obj) = Object_create s;
          s2 = set_string s1 obj
                 (string_of s1 selector1 @ '' '' @ combinator @ '' '' @ string_of s1 selector2)
      in (s2, obj))"

definition stringify :: "store \<Rightarrow> ref \<Rightarrow> string" where
  "stringify s this = string_of s this"


subsection \<open>Chains of calls\<close>

text \<open>
  A lineage is a chain of method calls \<^verbatim>\<open>this.m1(v1).m2(v2)...\<close>: each call is made on
  the object the one before returned, and an exception ends the chain.
\<close>

datatype kind = M_element | M_id | M_class | M_attr | M_pseudoClass | M_pseudoElement

fun invoke :: "kind \<Rightarrow> store \<Rightarrow> ref \<Rightarrow> string \<Rightarrow> store \<times> (exn + ref)" where
  "invoke M_element = element"
| "invoke M_id = id_part"
| "invoke M_class = class_part"
| "invoke M_attr = attr"
| "invoke M_pseudoClass = pseudoClass"
| "invoke M_pseudoElement = pseudoElement"

fun chain :: "store \<Rightarrow> ref \<Rightarrow> (kind \<times> string) list \<Rightarrow> store \<times> (exn + ref)" where
  "chain s this [] = (s, Inr this)"
| "chain s this ((m, v) # cs) =
     (case invoke m s this v of
        (s', Inl e) \<Rightarrow> (s', Inl e)
      | (s', Inr obj) \<Rightarrow> chain s' obj cs)"

text \<open>The number each method passes to \<^verbatim>\<open>checkOrder\<close> and assigns to \<^verbatim>\<open>obj.order\<close>.\<close>

fun rank :: "kind \<Rightarrow> nat" where
  "rank M_element = 1"
| "rank M_id = 2"
| "rank M_class = 3"
| "rank M_attr = 4"
| "rank M_pseudoClass = 5"
| "rank M_pseudoElement = 6"

text \<open>The text each method appends to \<^verbatim>\<open>this.string\<close>.\<close>

fun part_text :: "kind \<Rightarrow> string \<Rightarrow> string" where
  "part_text M_element v = v"
| "part_text M_id v = ''#'' @ v"
| "part_text M_class v = ''.'' @ v"
| "part_text M_attr v = ''['' @ v @ '']''"
| "part_text M_pseudoClass v = '':'' @ v"
| "part_text M_pseudoElement v = ''::'' @ v"

fun texts :: "(kind \<times> string) list \<Rightarrow> string" where
  "texts [] = []"
| "texts ((m, v) # cs) = part_text m v @ texts cs"

text \<open>The counter each of \<^verbatim>\<open>element\<close>, \<^verbatim>\<open>id\<close> and \<^verbatim>\<open>pseudoElement\<close> reads from \<^verbatim>\<open>this\<close>.\<close>

fun counter_of :: "kind \<Rightarrow> store \<Rightarrow> ref \<Rightarrow> nat" where
  "counter_of M_element s r = elementNum_of s r"
| "counter_of M_id s r = idNum_of s r"
| "counter_of M_pseudoElement s r = pseodoEl_of s r"
| "counter_of M_class s r = 0"
| "counter_of M_attr s r = 0"
| "counter_of M_pseudoClass s r = 0"

definition singleton :: "kind \<Rightarrow> bool" where
  "singleton m = (m = M_element \<or> m = M_id \<or> m = M_pseudoElement)"

text \<open>
  \<open>preserved s s'\<close>: the literal and every object of \<open>s\<close> have in \<open>s'\<close> the own
  properties they have in \<open>s\<close>.
\<close>

definition preserved :: "store \<Rightarrow> store \<Rightarrow> bool" where
  "preserved s s' = (builder s' = builder s \<and> take (length (objs s)) (objs s') = objs s)"

text \<open>
  \<open>build cs\<close>: the chain \<open>cs\<close> called on \<^verbatim>\<open>cssSelectorBuilder\<close> in the initial store,
  followed by \<^verbatim>\<open>stringify()\<close>.
\<close>

definition build :: "(kind \<times> string) list \<Rightarrow> exn + string" where
  "build cs =
     (case chain initial Builder cs of
        (s, Inl e) \<Rightarrow> Inl e
      | (s, Inr r) \<Rightarrow> Inr (stringify s r))"

section \<open>Reads and writes of the store\<close>

lemmas reads = string_of_def elementNum_of_def idNum_of_def pseodoEl_of_def order_of_def
lemmas writes = set_string_def set_elementNum_def set_idNum_def set_pseodoEl_def set_order_def
lemmas methods = element_def id_part_def class_part_def attr_def pseudoClass_def pseudoElement_def

lemma own_create [simp]: "own (s\<lparr>objs := objs s @ [no_props]\<rparr>) k = own s k"
  by (simp add: own_def nth_append)

lemma own_fresh [simp]: "own s (length (objs s)) = no_props"
  by (simp add: own_def)

lemma own_set_string [simp]:
  "own (set_string s (Obj n) x) k =
     (if k = n \<and> n < length (objs s) then (own s n)\<lparr>own_string := Some x\<rparr> else own s k)"
  by (simp add: own_def set_string_def)

lemma own_set_elementNum [simp]:
  "own (set_elementNum s (Obj n) x) k =
     (if k = n \<and> n < length (objs s) then (own s n)\<lparr>own_elementNum := Some x\<rparr> else own s k)"
  by (simp add: own_def set_elementNum_def)

lemma own_set_idNum [simp]:
  "own (set_idNum s (Obj n) x) k =
     (if k = n \<and> n < length (objs s) then (own s n)\<lparr>own_idNum := Some x\<rparr> else own s k)"
  by (simp add: own_def set_idNum_def)

lemma own_set_pseodoEl [simp]:
  "own (set_pseodoEl s (Obj n) x) k =
     (if k = n \<and> n < length (objs s) then (own s n)\<lparr>own_pseodoEl := Some x\<rparr> else own s k)"
  by (simp add: own_def set_pseodoEl_def)

lemma own_set_order [simp]:
  "own (set_order s (Obj n) x) k =
     (if k = n \<and> n < length (objs s) then (own s n)\<lparr>own_order := Some x\<rparr> else own s k)"
  by (simp add: own_def set_order_def)

lemma own_no_props [simp]:
  "own_string no_props = None" "own_elementNum no_props = None" "own_idNum no_props = None"
  "own_pseodoEl no_props = None" "own_order no_props = None"
  by (simp_all add: no_props_def)

lemma builder_set [simp]:
  "builder (set_string s (Obj n) x) = builder s"
  "builder (set_elementNum s (Obj n) y) = builder s"
  "builder (set_idNum s (Obj n) y) = builder s"
  "builder (set_pseodoEl s (Obj n) y) = builder s"
  "builder (set_order s (Obj n) y) = builder s"
  by (simp_all add: writes)

lemma length_set [simp]:
  "length (objs (set_string s (Obj n) x)) = length (objs s)"
  "length (objs (set_elementNum s (Obj n) y)) = length (objs s)"
  "length (objs (set_idNum s (Obj n) y)) = length (objs s)"
  "length (objs (set_pseodoEl s (Obj n) y)) = length (objs s)"
  "length (objs (set_order s (Obj n) y)) = length (objs s)"
  by (simp_all add: writes)

lemma take_set [simp]:
  "k \<le> n \<Longrightarrow> take k (objs (set_string s (Obj n) x)) = take k (objs s)"
  "k \<le> n \<Longrightarrow> take k (objs (set_elementNum s (Obj n) y)) = take k (objs s)"
  "k \<le> n \<Longrightarrow> take k (objs (set_idNum s (Obj n) y)) = take k (objs s)"
  "k \<le> n \<Longrightarrow> take k (objs (set_pseodoEl s (Obj n) y)) = take k (objs s)"
  "k \<le> n \<Longrightarrow> take k (objs (set_order s (Obj n) y)) = take k (objs s)"
  by (simp_all add: writes)

text \<open>Creating an object changes no read.\<close>

lemma read_create [simp]:
  "string_of (s\<lparr>objs := objs s @ [no_props]\<rparr>) r = string_of s r"
  "elementNum_of (s\<lparr>objs := objs s @ [no_props]\<rparr>) r = elementNum_of s r"
  "idNum_of (s\<lparr>objs := objs s @ [no_props]\<rparr>) r = idNum_of s r"
  "pseodoEl_of (s\<lparr>objs := objs s @ [no_props]\<rparr>) r = pseodoEl_of s r"
  "order_of (s\<lparr>objs := objs s @ [no_props]\<rparr>) r = order_of s r"
  by (simp_all add: reads split: ref.splits option.splits)

text \<open>An object that has not been assigned to reads the literal's properties.\<close>

lemma read_fresh [simp]:
  "string_of s (Obj (length (objs s))) = string (builder s)"
  "elementNum_of s (Obj (length (objs s))) = elementNum (builder s)"
  "idNum_of s (Obj (length (objs s))) = idNum (builder s)"
  "pseodoEl_of s (Obj (length (objs s))) = pseodoEl (builder s)"
  "order_of s (Obj (length (objs s))) = order (builder s)"
  by (simp_all add: reads)

text \<open>A write is read back from the object written to.\<close>

lemma read_written [simp]:
  "n < length (objs s) \<Longrightarrow> string_of (set_string s (Obj n) x) (Obj n) = x"
  "n < length (objs s) \<Longrightarrow> elementNum_of (set_elementNum s (Obj n) y) (Obj n) = y"
  "n < length (objs s) \<Longrightarrow> idNum_of (set_idNum s (Obj n) y) (Obj n) = y"
  "n < length (objs s) \<Longrightarrow> pseodoEl_of (set_pseodoEl s (Obj n) y) (Obj n) = y"
  "n < length (objs s) \<Longrightarrow> order_of (set_order s (Obj n) y) (Obj n) = Some y"
  by (simp_all add: reads)

text \<open>A write to one object changes no read of another object.\<close>

lemma read_other [simp]:
  "r \<noteq> Obj n \<Longrightarrow> string_of (set_string s (Obj n) x) r = string_of s r"
  "r \<noteq> Obj n \<Longrightarrow> elementNum_of (set_string s (Obj n) x) r = elementNum_of s r"
  "r \<noteq> Obj n \<Longrightarrow> idNum_of (set_string s (Obj n) x) r = idNum_of s r"
  "r \<noteq> Obj n \<Longrightarrow> pseodoEl_of (set_string s (Obj n) x) r = pseodoEl_of s r"
  "r \<noteq> Obj n \<Longrightarrow> order_of (set_string s (Obj n) x) r = order_of s r"
  "r \<noteq> Obj n \<Longrightarrow> string_of (set_elementNum s (Obj n) y) r = string_of s r"
  "r \<noteq> Obj n \<Longrightarrow> elementNum_of (set_elementNum s (Obj n) y) r = elementNum_of s r"
  "r \<noteq> Obj n \<Longrightarrow> idNum_of (set_elementNum s (Obj n) y) r = idNum_of s r"
  "r \<noteq> Obj n \<Longrightarrow> pseodoEl_of (set_elementNum s (Obj n) y) r = pseodoEl_of s r"
  "r \<noteq> Obj n \<Longrightarrow> order_of (set_elementNum s (Obj n) y) r = order_of s r"
  "r \<noteq> Obj n \<Longrightarrow> string_of (set_idNum s (Obj n) y) r = string_of s r"
  "r \<noteq> Obj n \<Longrightarrow> elementNum_of (set_idNum s (Obj n) y) r = elementNum_of s r"
  "r \<noteq> Obj n \<Longrightarrow> idNum_of (set_idNum s (Obj n) y) r = idNum_of s r"
  "r \<noteq> Obj n \<Longrightarrow> pseodoEl_of (set_idNum s (Obj n) y) r = pseodoEl_of s r"
  "r \<noteq> Obj n \<Longrightarrow> order_of (set_idNum s (Obj n) y) r = order_of s r"
  "r \<noteq> Obj n \<Longrightarrow> string_of (set_pseodoEl s (Obj n) y) r = string_of s r"
  "r \<noteq> Obj n \<Longrightarrow> elementNum_of (set_pseodoEl s (Obj n) y) r = elementNum_of s r"
  "r \<noteq> Obj n \<Longrightarrow> idNum_of (set_pseodoEl s (Obj n) y) r = idNum_of s r"
  "r \<noteq> Obj n \<Longrightarrow> pseodoEl_of (set_pseodoEl s (Obj n) y) r = pseodoEl_of s r"
  "r \<noteq> Obj n \<Longrightarrow> order_of (set_pseodoEl s (Obj n) y) r = order_of s r"
  "r \<noteq> Obj n \<Longrightarrow> string_of (set_order s (Obj n) y) r = string_of s r"
  "r \<noteq> Obj n \<Longrightarrow> elementNum_of (set_order s (Obj n) y) r = elementNum_of s r"
  "r \<noteq> Obj n \<Longrightarrow> idNum_of (set_order s (Obj n) y) r = idNum_of s r"
  "r \<noteq> Obj n \<Longrightarrow> pseodoEl_of (set_order s (Obj n) y) r = pseodoEl_of s r"
  "r \<noteq> Obj n \<Longrightarrow> order_of (set_order s (Obj n) y) r = order_of s r"
  by (simp_all add: reads split: ref.splits option.splits)

text \<open>A write to one property changes no read of another property.\<close>

lemma read_other_property [simp]:
  "elementNum_of (set_string s (Obj n) x) r = elementNum_of s r"
  "idNum_of (set_string s (Obj n) x) r = idNum_of s r"
  "pseodoEl_of (set_string s (Obj n) x) r = pseodoEl_of s r"
  "order_of (set_string s (Obj n) x) r = order_of s r"
  "string_of (set_elementNum s (Obj n) y) r = string_of s r"
  "idNum_of (set_elementNum s (Obj n) y) r = idNum_of s r"
  "pseodoEl_of (set_elementNum s (Obj n) y) r = pseodoEl_of s r"
  "order_of (set_elementNum s (Obj n) y) r = order_of s r"
  "string_of (set_idNum s (Obj n) y) r = string_of s r"
  "elementNum_of (set_idNum s (Obj n) y) r = elementNum_of s r"
  "pseodoEl_of (set_idNum s (Obj n) y) r = pseodoEl_of s r"
  "order_of (set_idNum s (Obj n) y) r = order_of s r"
  "string_of (set_pseodoEl s (Obj n) y) r = string_of s r"
  "elementNum_of (set_pseodoEl s (Obj n) y) r = elementNum_of s r"
  "idNum_of (set_pseodoEl s (Obj n) y) r = idNum_of s r"
  "order_of (set_pseodoEl s (Obj n) y) r = order_of s r"
  "string_of (set_order s (Obj n) y) r = string_of s r"
  "elementNum_of (set_order s (Obj n) y) r = elementNum_of s r"
  "idNum_of (set_order s (Obj n) y) r = idNum_of s r"
  "pseodoEl_of (set_order s (Obj n) y) r = pseodoEl_of s r"
  by (simp_all add: reads split: ref.splits option.splits)



lemma valid_fresh: "valid s this \<Longrightarrow> this \<noteq> Obj (length (objs s))"
  by (cases this) (simp_all add: valid_def)

lemma invoke_result:
  "valid s this \<Longrightarrow> snd (invoke m s this v) =
     (if (\<exists>k. order_of s this = Some k \<and> k > rank m) then Inl (Error order_message)
      else if 0 < counter_of m s this then Inl (Error duplicate_message)
      else Inr (Obj (length (objs s))))"
  by (cases m)
     (simp_all add: methods Object_create_def checkOrder_def Let_def valid_fresh
      split: option.splits)

lemma invoke_frame:
  "valid s this \<Longrightarrow> invoke m s this v = (s', res) \<Longrightarrow>
     builder s' = builder s \<and> take (length (objs s)) (objs s') = objs s \<and>
     length (objs s') = Suc (length (objs s))"
  by (cases m)
     (auto simp add: methods Object_create_def checkOrder_def Let_def valid_fresh
      split: option.splits if_splits)

lemma invoke_ref:
  "valid s this \<Longrightarrow> invoke m s this v = (s', Inr r) \<Longrightarrow> r = Obj (length (objs s))"
  by (cases m)
     (auto simp add: methods Object_create_def checkOrder_def Let_def valid_fresh
      split: option.splits if_splits)

lemma invoke_new:
  "valid s this \<Longrightarrow> invoke m s this v = (s', Inr r) \<Longrightarrow>
     string_of s' r = string_of s this @ part_text m v \<and>
     order_of s' r = Some (rank m) \<and>
     elementNum_of s' r = (if m = M_element then 1 else elementNum (builder s)) \<and>
     idNum_of s' r = (if m = M_id then 1 else idNum (builder s)) \<and>
     pseodoEl_of s' r = (if m = M_pseudoElement then 1 else pseodoEl (builder s))"
  by (cases m)
     (auto simp add: methods Object_create_def checkOrder_def Let_def valid_fresh
      split: option.splits if_splits)

section \<open>Calls and chains\<close>

lemma preserved_refl: "preserved s s" by (simp add: preserved_def)

lemma preserved_iff:
  "preserved s t \<longleftrightarrow> builder t = builder s \<and> (\<exists>ys. objs t = objs s @ ys)"
proof
  assume p: "preserved s t"
  then have "objs t = objs s @ drop (length (objs s)) (objs t)"
    using append_take_drop_id [of "length (objs s)" "objs t"] by (simp add: preserved_def)
  with p show "builder t = builder s \<and> (\<exists>ys. objs t = objs s @ ys)"
    by (auto simp: preserved_def)
next
  assume "builder t = builder s \<and> (\<exists>ys. objs t = objs s @ ys)"
  then show "preserved s t" by (auto simp: preserved_def)
qed

lemma preserved_trans: "preserved s t \<Longrightarrow> preserved t u \<Longrightarrow> preserved s u"
  by (auto simp: preserved_iff)

lemma preserved_own: "preserved s t \<Longrightarrow> n < length (objs s) \<Longrightarrow> own t n = own s n"
  by (auto simp: preserved_iff own_def nth_append)

lemma preserved_valid: "preserved s t \<Longrightarrow> valid s r \<Longrightarrow> valid t r"
  by (cases r) (auto simp: preserved_iff valid_def)

lemma preserved_read:
  assumes "preserved s t" "valid s r"
  shows "string_of t r = string_of s r" "elementNum_of t r = elementNum_of s r"
    "idNum_of t r = idNum_of s r" "pseodoEl_of t r = pseodoEl_of s r"
    "order_of t r = order_of s r"
proof -
  have b: "builder t = builder s" using assms(1) by (simp add: preserved_def)
  have o: "\<And>n. r = Obj n \<Longrightarrow> own t n = own s n"
    using assms by (simp add: valid_def preserved_own)
  show "string_of t r = string_of s r" "elementNum_of t r = elementNum_of s r"
    "idNum_of t r = idNum_of s r" "pseodoEl_of t r = pseodoEl_of s r"
    "order_of t r = order_of s r"
    using b o by (simp_all add: reads split: ref.splits option.splits)
qed

lemma invoke_preserved:
  "valid s this \<Longrightarrow> invoke m s this v = (s', res) \<Longrightarrow> preserved s s'"
  using invoke_frame [of s this m v s' res] by (simp add: preserved_def)

lemma invoke_valid:
  "valid s this \<Longrightarrow> invoke m s this v = (s', Inr r) \<Longrightarrow> valid s' r \<and> \<not> valid s r"
  using invoke_frame [of s this m v s' "Inr r"] invoke_ref [of s this m v s' r]
  by (simp add: valid_def)

lemma chain_preserved:
  "valid s this \<Longrightarrow> chain s this cs = (s', res) \<Longrightarrow> preserved s s'"
proof (induction cs arbitrary: s this)
  case Nil
  then show ?case by (simp add: preserved_refl)
next
  case (Cons c cs)
  obtain m v where c: "c = (m, v)" by (cases c)
  obtain s1 res1 where i: "invoke m s this v = (s1, res1)" by (cases "invoke m s this v")
  have p: "preserved s s1" using Cons.prems(1) i by (rule invoke_preserved)
  show ?case
  proof (cases res1)
    case (Inl e)
    with Cons.prems c i p show ?thesis by simp
  next
    case (Inr r1)
    with Cons.prems c i have "chain s1 r1 cs = (s', res)" by simp
    moreover have "valid s1 r1" using Cons.prems(1) i Inr invoke_valid by blast
    ultimately have "preserved s1 s'" by (rule Cons.IH [rotated])
    with p show ?thesis by (rule preserved_trans)
  qed
qed

lemma chain_valid:
  "valid s this \<Longrightarrow> chain s this cs = (s', Inr r) \<Longrightarrow> valid s' r"
proof (induction cs arbitrary: s this)
  case Nil
  then show ?case by simp
next
  case (Cons c cs)
  obtain m v where c: "c = (m, v)" by (cases c)
  obtain s1 res1 where i: "invoke m s this v = (s1, res1)" by (cases "invoke m s this v")
  show ?case
  proof (cases res1)
    case (Inl e)
    with Cons.prems c i show ?thesis by simp
  next
    case (Inr r1)
    with Cons.prems c i have "chain s1 r1 cs = (s', Inr r)" by simp
    moreover have "valid s1 r1" using Cons.prems(1) i Inr invoke_valid by blast
    ultimately show ?thesis by (rule Cons.IH [rotated])
  qed
qed

lemma chain_string:
  "valid s this \<Longrightarrow> chain s this cs = (s', Inr r) \<Longrightarrow>
     string_of s' r = string_of s this @ texts cs"
proof (induction cs arbitrary: s this)
  case Nil
  then show ?case by simp
next
  case (Cons c cs)
  obtain m v where c: "c = (m, v)" by (cases c)
  obtain s1 res1 where i: "invoke m s this v = (s1, res1)" by (cases "invoke m s this v")
  show ?case
  proof (cases res1)
    case (Inl e)
    with Cons.prems c i show ?thesis by simp
  next
    case (Inr r1)
    with Cons.prems c i have ch: "chain s1 r1 cs = (s', Inr r)" by simp
    have v1: "valid s1 r1" using Cons.prems(1) i Inr invoke_valid by blast
    have "string_of s1 r1 = string_of s this @ part_text m v"
      using Cons.prems(1) i Inr invoke_new by blast
    moreover have "string_of s' r = string_of s1 r1 @ texts cs"
      using v1 ch by (rule Cons.IH)
    ultimately show ?thesis using c by simp
  qed
qed

lemma chain_snoc:
  "chain s this (cs @ [(m, v)]) =
     (case chain s this cs of
        (s', Inl e) \<Rightarrow> (s', Inl e)
      | (s', Inr r) \<Rightarrow> invoke m s' r v)"
proof (induction cs arbitrary: s this)
  case Nil
  show ?case by (cases "invoke m s this v") (auto split: sum.splits)
next
  case (Cons c cs)
  obtain m' v' where c: "c = (m', v')" by (cases c)
  show ?case using Cons.IH c by (auto split: prod.splits sum.splits)
qed

lemma rank_inj: "rank m = rank m' \<Longrightarrow> m = m'"
  by (cases m; cases m'; simp)

lemma invoke_ok:
  assumes "valid s this" "\<And>k. order_of s this = Some k \<Longrightarrow> k \<le> rank m"
    "counter_of m s this = 0"
  shows "\<exists>s'. invoke m s this v = (s', Inr (Obj (length (objs s))))"
proof -
  have "\<not> (\<exists>k. order_of s this = Some k \<and> rank m < k)"
    using assms(2) by (auto simp: not_less)
  then have "snd (invoke m s this v) = Inr (Obj (length (objs s)))"
    using assms(1,3) by (simp add: invoke_result)
  then show ?thesis by (metis prod.collapse)
qed

lemma invoke_order_error:
  assumes "valid s this" "order_of s this = Some k" "rank m < k"
  shows "snd (invoke m s this v) = Inl (Error order_message)"
  using assms by (simp add: invoke_result)

lemma invoke_duplicate_error:
  assumes "valid s this" "order_of s this = Some (rank m)" "0 < counter_of m s this"
  shows "snd (invoke m s this v) = Inl (Error duplicate_message)"
  using assms by (simp add: invoke_result)

lemma invoke_success_order:
  assumes "valid s this" "invoke m s this v = (s', Inr r)" "order_of s this = Some k"
  shows "k \<le> rank m"
proof (rule ccontr)
  assume "\<not> k \<le> rank m"
  then have "snd (invoke m s this v) = Inl (Error order_message)"
    using assms(1,3) by (simp add: invoke_order_error)
  with assms(2) show False by simp
qed

lemma invoke_new_counter:
  assumes "valid s this" "builder s = cssSelectorBuilder" "invoke m s this v = (s', Inr r)"
  shows "counter_of m' s' r = (if m' = m \<and> singleton m then 1 else 0)"
  using invoke_new [OF assms(1,3)] assms(2)
  by (cases m'; cases m; simp add: singleton_def cssSelectorBuilder_def)

lemma lineage_step:
  assumes "valid s this" "builder s = cssSelectorBuilder" "chain s this cs = (s', Inr r)"
    "cs \<noteq> []"
  shows "order_of s' r = Some (rank (fst (last cs))) \<and>
         (\<forall>m'. counter_of m' s' r = (if m' = fst (last cs) \<and> singleton m' then 1 else 0))"
proof -
  obtain cs' m v where cs: "cs = cs' @ [(m, v)]"
    using assms(4) by (metis rev_exhaust surj_pair)
  obtain s1 res1 where c1: "chain s this cs' = (s1, res1)" by (cases "chain s this cs'")
  have "\<exists>r1. res1 = Inr r1"
    using assms(3) cs c1 by (cases res1) (simp_all add: chain_snoc)
  then obtain r1 where r1: "res1 = Inr r1" ..
  have i: "invoke m s1 r1 v = (s', Inr r)"
    using assms(3) cs c1 r1 by (simp add: chain_snoc)
  have v1: "valid s1 r1" using assms(1) c1 r1 chain_valid by blast
  have "preserved s s1" using assms(1) c1 by (rule chain_preserved)
  then have b1: "builder s1 = cssSelectorBuilder" using assms(2) by (simp add: preserved_def)
  have "order_of s' r = Some (rank m)" using invoke_new [OF v1 i] by simp
  moreover have "\<And>m'. counter_of m' s' r = (if m' = m \<and> singleton m then 1 else 0)"
    using v1 b1 i by (rule invoke_new_counter)
  ultimately show ?thesis using cs by auto
qed

lemma chain_lower_bound:
  "valid s this \<Longrightarrow> order_of s this = Some k \<Longrightarrow> chain s this cs = (s', Inr r) \<Longrightarrow>
     c \<in> set cs \<Longrightarrow> k \<le> rank (fst c)"
proof (induction cs arbitrary: s this k)
  case Nil
  then show ?case by simp
next
  case (Cons d cs)
  obtain m v where d: "d = (m, v)" by (cases d)
  obtain s1 res1 where i: "invoke m s this v = (s1, res1)" by (cases "invoke m s this v")
  have "\<exists>r1. res1 = Inr r1" using Cons.prems(3) d i by (cases res1) simp_all
  then obtain r1 where r1: "res1 = Inr r1" ..
  have ch: "chain s1 r1 cs = (s', Inr r)" using Cons.prems(3) d i r1 by simp
  have v1: "valid s1 r1" using Cons.prems(1) i r1 invoke_valid by blast
  have o1: "order_of s1 r1 = Some (rank m)"
    using invoke_new [OF Cons.prems(1)] i r1 by simp
  have km: "k \<le> rank m"
    using Cons.prems(1,2) i r1 invoke_success_order by blast
  show ?case
  proof (cases "c = d")
    case True
    with km d show ?thesis by simp
  next
    case False
    with Cons.prems(4) have "c \<in> set cs" by simp
    then have "rank m \<le> rank (fst c)" using Cons.IH [OF v1 o1 ch] by simp
    with km show ?thesis by simp
  qed
qed

lemma chain_sorted:
  "valid s this \<Longrightarrow> chain s this cs = (s', Inr r) \<Longrightarrow> sorted (map (\<lambda>c. rank (fst c)) cs)"
proof (induction cs arbitrary: s this)
  case Nil
  then show ?case by simp
next
  case (Cons d cs)
  obtain m v where d: "d = (m, v)" by (cases d)
  obtain s1 res1 where i: "invoke m s this v = (s1, res1)" by (cases "invoke m s this v")
  have "\<exists>r1. res1 = Inr r1" using Cons.prems(2) d i by (cases res1) simp_all
  then obtain r1 where r1: "res1 = Inr r1" ..
  have ch: "chain s1 r1 cs = (s', Inr r)" using Cons.prems(2) d i r1 by simp
  have v1: "valid s1 r1" using Cons.prems(1) i r1 invoke_valid by blast
  have o1: "order_of s1 r1 = Some (rank m)"
    using invoke_new [OF Cons.prems(1)] i r1 by simp
  have "\<And>c. c \<in> set cs \<Longrightarrow> rank m \<le> rank (fst c)"
    using chain_lower_bound [OF v1 o1 ch] by simp
  moreover have "sorted (map (\<lambda>c. rank (fst c)) cs)" using v1 ch by (rule Cons.IH)
  ultimately show ?case using d by simp
qed

lemma sorted_le_last: "sorted xs \<Longrightarrow> x \<in> set xs \<Longrightarrow> (x::nat) \<le> last xs"
proof (induction xs)
  case Nil
  then show ?case by simp
next
  case (Cons a xs)
  then show ?case by (cases "xs = []") auto
qed

lemma second_call_raises:
  assumes "builder s = cssSelectorBuilder" "chain s Builder cs = (s', Inr r)"
    "singleton m" "m \<in> fst ` set cs"
  shows "snd (invoke m s' r v) =
           Inl (Error (if fst (last cs) = m then duplicate_message else order_message))"
proof -
  have vb: "valid s Builder" by (simp add: valid_def)
  have ne: "cs \<noteq> []" using assms(4) by auto
  have v: "valid s' r" using vb assms(2) by (rule chain_valid)
  have st: "order_of s' r = Some (rank (fst (last cs)))"
    "counter_of m s' r = (if m = fst (last cs) \<and> singleton m then 1 else 0)"
    using lineage_step [OF vb assms(1,2) ne] by simp_all
  have "sorted (map (\<lambda>c. rank (fst c)) cs)" using vb assms(2) by (rule chain_sorted)
  moreover have "rank m \<in> set (map (\<lambda>c. rank (fst c)) cs)" using assms(4) by auto
  ultimately have "rank m \<le> last (map (\<lambda>c. rank (fst c)) cs)" by (rule sorted_le_last)
  then have le: "rank m \<le> rank (fst (last cs))" using ne by (simp add: last_map)
  show ?thesis
  proof (cases "fst (last cs) = m")
    case True
    then show ?thesis using v st assms(3) by (simp add: invoke_duplicate_error)
  next
    case False
    then have "rank m \<noteq> rank (fst (last cs))" using rank_inj by blast
    with le have "rank m < rank (fst (last cs))" by simp
    then show ?thesis using v st(1) False by (simp add: invoke_order_error)
  qed
qed

lemma ordered_chain_succeeds:
  assumes "builder s = cssSelectorBuilder"
  shows "sorted (map (\<lambda>c. rank (fst c)) cs) \<Longrightarrow>
         (\<And>m. singleton m \<Longrightarrow> count_list (map fst cs) m \<le> 1) \<Longrightarrow>
         \<exists>s' r. chain s Builder cs = (s', Inr r)"
proof (induction cs rule: rev_induct)
  case Nil
  show ?case by simp
next
  case (snoc c cs)
  obtain m v where c: "c = (m, v)" by (cases c)
  have vb: "valid s Builder" by (simp add: valid_def)
  have so: "sorted (map (\<lambda>c. rank (fst c)) cs)"
    and le: "\<And>d. d \<in> set cs \<Longrightarrow> rank (fst d) \<le> rank m"
    using snoc.prems(1) c by (auto simp: sorted_append)
  have cnt: "\<And>m'. singleton m' \<Longrightarrow> count_list (map fst cs) m' \<le> 1"
  proof -
    fix m' assume "singleton m'"
    then have "count_list (map fst (cs @ [c])) m' \<le> 1" by (rule snoc.prems(2))
    then show "count_list (map fst cs) m' \<le> 1" by (simp split: if_splits)
  qed
  obtain s1 r1 where c1: "chain s Builder cs = (s1, Inr r1)"
    using snoc.IH [OF so cnt] by blast
  have v1: "valid s1 r1" using vb c1 by (rule chain_valid)
  have "preserved s s1" using vb c1 by (rule chain_preserved)
  then have b1: "builder s1 = cssSelectorBuilder" using assms by (simp add: preserved_def)
  have "\<exists>s'. invoke m s1 r1 v = (s', Inr (Obj (length (objs s1))))"
  proof (cases "cs = []")
    case True
    with c1 have "s1 = s" "r1 = Builder" by simp_all
    then show ?thesis
      using assms by (intro invoke_ok) (cases m; simp add: valid_def reads cssSelectorBuilder_def)+
  next
    case False
    have st: "order_of s1 r1 = Some (rank (fst (last cs)))"
      "counter_of m s1 r1 = (if m = fst (last cs) \<and> singleton m then 1 else 0)"
      using lineage_step [OF vb assms c1 False] by simp_all
    have "rank (fst (last cs)) \<le> rank m" using le False by simp
    moreover have "\<not> (m = fst (last cs) \<and> singleton m)"
    proof
      assume a: "m = fst (last cs) \<and> singleton m"
      then have "m \<in> set (map fst cs)" using False by (metis last_in_set last_map list.map_disc_iff)
      then have "count_list (map fst cs) m \<noteq> 0" by (simp only: count_list_0_iff not_not)
      then have "0 < count_list (map fst cs) m" by simp
      moreover have "count_list (map fst (cs @ [c])) m \<le> 1" using a by (intro snoc.prems(2)) blast
      ultimately show False using c by simp
    qed
    ultimately show ?thesis using v1 st by (intro invoke_ok) auto
  qed
  then show ?case using c c1 by (auto simp add: chain_snoc)
qed

lemma preserved_counter:
  "preserved s t \<Longrightarrow> valid s r \<Longrightarrow> counter_of m t r = counter_of m s r"
  by (cases m) (simp_all add: preserved_read)

lemma invoke_same_outcome:
  assumes "valid s this" "preserved s t"
  shows "(snd (invoke m t this v) = Inl e) = (snd (invoke m s this v) = Inl e)"
proof -
  have "valid t this" using assms(2,1) by (rule preserved_valid)
  then show ?thesis
    using assms by (auto simp add: invoke_result preserved_read preserved_counter)
qed


lemma messages_differ: "Error duplicate_message \<noteq> Error order_message"
  by (simp add: duplicate_message_def order_message_def)

lemma combine_frame:
  "valid s a \<Longrightarrow> valid s b \<Longrightarrow> combine s a c b = (s', r) \<Longrightarrow>
     preserved s s' \<and> r = Obj (length (objs s)) \<and> length (objs s') = Suc (length (objs s))"
  by (auto simp add: combine_def Object_create_def Let_def preserved_def)

lemma combine_new:
  "valid s a \<Longrightarrow> valid s b \<Longrightarrow> combine s a c b = (s', r) \<Longrightarrow>
     string_of s' r = string_of s a @ '' '' @ c @ '' '' @ string_of s b \<and>
     order_of s' r = order (builder s) \<and>
     elementNum_of s' r = elementNum (builder s) \<and>
     idNum_of s' r = idNum (builder s) \<and>
     pseodoEl_of s' r = pseodoEl (builder s)"
  by (auto simp add: combine_def Object_create_def Let_def)

lemma literal_counters:
  "builder s = cssSelectorBuilder \<Longrightarrow>
     order_of s Builder = None \<and> string_of s Builder = [] \<and>
     elementNum_of s Builder = 0 \<and> idNum_of s Builder = 0 \<and> pseodoEl_of s Builder = 0"
  by (simp add: reads cssSelectorBuilder_def)

lemma lineage_counters:
  assumes "builder s = cssSelectorBuilder" "chain s Builder cs = (s', Inr r)"
  shows "elementNum_of s' r \<le> 1 \<and> idNum_of s' r \<le> 1 \<and> pseodoEl_of s' r \<le> 1"
proof (cases "cs = []")
  case True
  with assms(2) have "s' = s" "r = Builder" by simp_all
  then show ?thesis using literal_counters [OF assms(1)] by simp
next
  case False
  have vb: "valid s Builder" by (simp add: valid_def)
  have c: "\<And>m'. counter_of m' s' r = (if m' = fst (last cs) \<and> singleton m' then 1 else 0)"
    using lineage_step [OF vb assms False] by simp
  show ?thesis
    using c [of M_element] c [of M_id] c [of M_pseudoElement] by simp
qed

section \<open>The claims\<close>

text \<open>
  C1. A second call of \<^verbatim>\<open>element\<close>, \<^verbatim>\<open>id\<close> or \<^verbatim>\<open>pseudoElement\<close> in a chain started on
  \<^verbatim>\<open>cssSelectorBuilder\<close> always throws. It throws the error "Element, id and
  pseudo-element should not occur more then one time inside the selector" when the
  last call before it was of the same method, and the order error when other calls lie
  between the two: \<^verbatim>\<open>checkOrder\<close> runs before the counter is compared, and the counter
  is read from the receiver only.
\<close>

theorem second_singleton_call_throws:
  assumes "builder s = cssSelectorBuilder" and "chain s Builder cs = (s', Inr r)"
    and "m = M_element \<or> m = M_id \<or> m = M_pseudoElement" and "m \<in> fst ` set cs"
  shows "snd (invoke m s' r v) =
           Inl (Error (if fst (last cs) = m then duplicate_message else order_message))"
  using assms second_call_raises [of s cs s' r m v] by (simp add: singleton_def)

theorem second_singleton_call_throws_witness:
  "snd (invoke M_element (fst (chain initial Builder [(M_element, ''div''), (M_class, ''a'')]))
          (Obj 1) ''p'') = Inl (Error order_message) \<and>
   snd (invoke M_id (fst (chain initial Builder [(M_element, ''div''), (M_id, ''a'')]))
          (Obj 1) ''b'') = Inl (Error duplicate_message)"
proof -
  let ?cs = "[(M_element, ''div''), (M_class, ''a'')]"
  let ?ds = "[(M_element, ''div''), (M_id, ''a'')]"
  have b: "builder initial = cssSelectorBuilder" by (simp add: initial_def)
  have c: "chain initial Builder ?cs = (fst (chain initial Builder ?cs), Inr (Obj 1))"
    by code_simp
  have d: "chain initial Builder ?ds = (fst (chain initial Builder ?ds), Inr (Obj 1))"
    by code_simp
  show ?thesis
    using second_singleton_call_throws [OF b c, of M_element "''p''"]
      second_singleton_call_throws [OF b d, of M_id "''b''"]
    by simp
qed

text \<open>
  The chain \<^verbatim>\<open>element('div').class('a').element('p')\<close>: the first two calls return, and
  the second \<^verbatim>\<open>element\<close> throws the order error, not the duplicate error.
\<close>

theorem interleaved_second_element_is_order_error:
  "build [(M_element, ''div''), (M_class, ''a'')] = Inr ''div.a'' \<and>
   build [(M_element, ''div''), (M_class, ''a''), (M_element, ''p'')] = Inl (Error order_message) \<and>
   build [(M_element, ''div''), (M_class, ''a''), (M_element, ''p'')]
     \<noteq> Inl (Error duplicate_message)"
  by code_simp

text \<open>
  C2. A chain of calls on \<^verbatim>\<open>cssSelectorBuilder\<close> whose method numbers (element 1, id 2,
  class 3, attr 4, pseudoClass 5, pseudoElement 6) never decrease and in which
  \<^verbatim>\<open>element\<close>, \<^verbatim>\<open>id\<close> and \<^verbatim>\<open>pseudoElement\<close> are each called at most once returns an object,
  and \<^verbatim>\<open>stringify()\<close> of it is the concatenation of the parts. After a chain that
  returned, a call whose number is below the number of the last method called throws
  the error that names the order "element, id, class, attribute, pseudo-class,
  pseudo-element", and for a call with the same number \<^verbatim>\<open>checkOrder\<close> does not throw.
\<close>

theorem ordered_chain_builds:
  assumes "builder s = cssSelectorBuilder"
  shows "(sorted (map (\<lambda>c. rank (fst c)) cs) \<and> count_list (map fst cs) M_element \<le> 1 \<and>
          count_list (map fst cs) M_id \<le> 1 \<and> count_list (map fst cs) M_pseudoElement \<le> 1 \<longrightarrow>
            (\<exists>t q. chain s Builder cs = (t, Inr q) \<and> stringify t q = texts cs)) \<and>
         (chain s Builder cs = (s', Inr r) \<and> cs \<noteq> [] \<longrightarrow>
            order_of s' r = Some (rank (fst (last cs))) \<and>
            (rank m < rank (fst (last cs)) \<longrightarrow>
               snd (invoke m s' r v) = Inl (Error order_message)) \<and>
            (rank m = rank (fst (last cs)) \<longrightarrow> checkOrder s' r (rank m) = None)) \<and>
         order_message = ''Selector parts should be arranged in the following order: element, id, class, attribute, pseudo-class, pseudo-element'' \<and>
         map rank [M_element, M_id, M_class, M_attr, M_pseudoClass, M_pseudoElement]
           = [1, 2, 3, 4, 5, 6]"
proof -
  have vb: "valid s Builder" by (simp add: valid_def)
  have a: "\<exists>t q. chain s Builder cs = (t, Inr q) \<and> stringify t q = texts cs"
    if so: "sorted (map (\<lambda>c. rank (fst c)) cs)"
      and c1: "count_list (map fst cs) M_element \<le> 1"
      and c2: "count_list (map fst cs) M_id \<le> 1"
      and c3: "count_list (map fst cs) M_pseudoElement \<le> 1"
  proof -
    have "\<And>k. singleton k \<Longrightarrow> count_list (map fst cs) k \<le> 1"
      using c1 c2 c3 by (auto simp: singleton_def)
    then obtain t q where ch: "chain s Builder cs = (t, Inr q)"
      using ordered_chain_succeeds [OF assms so] by blast
    have "string_of t q = string_of s Builder @ texts cs" using vb ch by (rule chain_string)
    then have "stringify t q = texts cs"
      using literal_counters [OF assms] by (simp add: stringify_def)
    with ch show ?thesis by blast
  qed
  have b: "order_of s' r = Some (rank (fst (last cs))) \<and>
           (rank m < rank (fst (last cs)) \<longrightarrow>
              snd (invoke m s' r v) = Inl (Error order_message)) \<and>
           (rank m = rank (fst (last cs)) \<longrightarrow> checkOrder s' r (rank m) = None)"
    if ch: "chain s Builder cs = (s', Inr r)" and ne: "cs \<noteq> []"
  proof -
    have v': "valid s' r" using vb ch by (rule chain_valid)
    have o: "order_of s' r = Some (rank (fst (last cs)))"
      using lineage_step [OF vb assms ch ne] by simp
    show ?thesis using o v' by (simp add: invoke_order_error checkOrder_def)
  qed
  show ?thesis using a b by (simp add: order_message_def)
qed

theorem ordered_chain_builds_witness:
  "(\<exists>t q. chain initial Builder
       [(M_element, ''div''), (M_id, ''main''), (M_class, ''a''), (M_class, ''b''),
        (M_attr, ''x''), (M_pseudoClass, ''hover''), (M_pseudoElement, ''after'')] = (t, Inr q) \<and>
     stringify t q = ''div#main.a.b[x]:hover::after'') \<and>
   snd (invoke M_element (fst (chain initial Builder [(M_id, ''main''), (M_class, ''a'')])) (Obj 1) ''p'')
     = Inl (Error order_message) \<and>
   checkOrder (fst (chain initial Builder [(M_id, ''main''), (M_class, ''a'')])) (Obj 1) 3 = None"
proof -
  let ?cs = "[(M_element, ''div''), (M_id, ''main''), (M_class, ''a''), (M_class, ''b''),
        (M_attr, ''x''), (M_pseudoClass, ''hover''), (M_pseudoElement, ''after'')]"
  let ?ds = "[(M_id, ''main''), (M_class, ''a'')]"
  let ?s = "fst (chain initial Builder ?ds)"
  have b: "builder initial = cssSelectorBuilder" by (simp add: initial_def)
  have c: "chain initial Builder ?ds = (?s, Inr (Obj 1))" by code_simp
  have t: "texts ?cs = ''div#main.a.b[x]:hover::after''" by simp
  show ?thesis
    using ordered_chain_builds [OF b, of ?cs ?s "Obj 1" M_element "''p''"]
      ordered_chain_builds [OF b, of ?ds ?s "Obj 1" M_element "''p''"]
      ordered_chain_builds [OF b, of ?ds ?s "Obj 1" M_class "''p''"] c t
    by simp
qed

text \<open>
  C3. A call of one of the six methods writes no object that exists before the call,
  whether it returns or throws: the literal and every object of the store keep the
  properties they have, so the receiver reads the same text, order and counters after
  the call. The object a call returns is new. A later call on the same receiver throws
  exactly when it would have thrown without the earlier call, and two objects obtained
  from the same receiver, by single calls or by chains, each stringify to the text of
  the receiver followed by their own parts only.
\<close>

theorem part_calls_do_not_mutate:
  assumes "valid s this" and "invoke m s this v = (s1, res1)"
    and "invoke m' s1 this v' = (s2, res2)"
  shows "preserved s s1 \<and> preserved s1 s2 \<and>
    string_of s1 this = string_of s this \<and> order_of s1 this = order_of s this \<and>
    elementNum_of s1 this = elementNum_of s this \<and> idNum_of s1 this = idNum_of s this \<and>
    pseodoEl_of s1 this = pseodoEl_of s this \<and>
    (\<forall>r1. res1 = Inr r1 \<longrightarrow>
       \<not> valid s r1 \<and> valid s1 r1 \<and> stringify s2 r1 = stringify s this @ part_text m v) \<and>
    (\<forall>r2. res2 = Inr r2 \<longrightarrow>
       \<not> valid s1 r2 \<and> valid s2 r2 \<and> stringify s2 r2 = stringify s this @ part_text m' v') \<and>
    (\<forall>e. (res2 = Inl e) = (snd (invoke m' s this v') = Inl e)) \<and>
    (\<forall>cs1 cs2 t1 t2 q1 q2.
       chain s this cs1 = (t1, Inr q1) \<and> chain t1 this cs2 = (t2, Inr q2) \<longrightarrow>
         stringify t2 q1 = stringify s this @ texts cs1 \<and>
         stringify t2 q2 = stringify s this @ texts cs2 \<and>
         stringify t2 this = stringify s this)"
proof -
  have p1: "preserved s s1" using assms(1,2) by (rule invoke_preserved)
  have v1: "valid s1 this" using p1 assms(1) by (rule preserved_valid)
  have p2: "preserved s1 s2" using v1 assms(3) by (rule invoke_preserved)
  have rd: "string_of s1 this = string_of s this" "order_of s1 this = order_of s this"
    "elementNum_of s1 this = elementNum_of s this" "idNum_of s1 this = idNum_of s this"
    "pseodoEl_of s1 this = pseodoEl_of s this"
    using p1 assms(1) by (simp_all add: preserved_read)
  have a: "\<not> valid s r1 \<and> valid s1 r1 \<and> stringify s2 r1 = stringify s this @ part_text m v"
    if "res1 = Inr r1" for r1
  proof -
    have i: "invoke m s this v = (s1, Inr r1)" using assms(2) that by simp
    have vr: "valid s1 r1" "\<not> valid s r1" using invoke_valid [OF assms(1) i] by simp_all
    have "string_of s1 r1 = string_of s this @ part_text m v"
      using invoke_new [OF assms(1) i] by simp
    moreover have "string_of s2 r1 = string_of s1 r1" using p2 vr(1) by (simp add: preserved_read)
    ultimately show ?thesis using vr by (simp add: stringify_def)
  qed
  have b: "\<not> valid s1 r2 \<and> valid s2 r2 \<and> stringify s2 r2 = stringify s this @ part_text m' v'"
    if "res2 = Inr r2" for r2
  proof -
    have i: "invoke m' s1 this v' = (s2, Inr r2)" using assms(3) that by simp
    have vr: "valid s2 r2" "\<not> valid s1 r2" using invoke_valid [OF v1 i] by simp_all
    have "string_of s2 r2 = string_of s1 this @ part_text m' v'"
      using invoke_new [OF v1 i] by simp
    then show ?thesis using vr rd(1) by (simp add: stringify_def)
  qed
  have c: "(res2 = Inl e) = (snd (invoke m' s this v') = Inl e)" for e
    using invoke_same_outcome [OF assms(1) p1, of m' v' e] assms(3) by simp
  have d: "stringify t2 q1 = stringify s this @ texts cs1 \<and>
           stringify t2 q2 = stringify s this @ texts cs2 \<and>
           stringify t2 this = stringify s this"
    if c1: "chain s this cs1 = (t1, Inr q1)" and c2: "chain t1 this cs2 = (t2, Inr q2)"
    for cs1 cs2 t1 t2 q1 q2
  proof -
    have q1: "preserved s t1" using assms(1) c1 by (rule chain_preserved)
    have w1: "valid t1 this" using q1 assms(1) by (rule preserved_valid)
    have q2: "preserved t1 t2" using w1 c2 by (rule chain_preserved)
    have w: "valid t1 q1" using assms(1) c1 by (rule chain_valid)
    have "string_of t1 q1 = string_of s this @ texts cs1" using assms(1) c1 by (rule chain_string)
    moreover have "string_of t2 q1 = string_of t1 q1" using q2 w by (simp add: preserved_read)
    moreover have "string_of t2 q2 = string_of t1 this @ texts cs2" using w1 c2 by (rule chain_string)
    moreover have "string_of t1 this = string_of s this" using q1 assms(1) by (simp add: preserved_read)
    moreover have "string_of t2 this = string_of t1 this" using q2 w1 by (simp add: preserved_read)
    ultimately show ?thesis by (simp add: stringify_def)
  qed
  show ?thesis using p1 p2 rd a b c d by blast
qed

theorem part_calls_do_not_mutate_witness:
  "preserved (fst (id_part initial Builder ''a''))
     (fst (invoke M_element (fst (id_part initial Builder ''a'')) (Obj 0) ''div'')) \<and>
   string_of (fst (invoke M_element (fst (id_part initial Builder ''a'')) (Obj 0) ''div'')) (Obj 0)
     = ''#a'' \<and>
   stringify (fst (invoke M_class
       (fst (invoke M_element (fst (id_part initial Builder ''a'')) (Obj 0) ''div'')) (Obj 0) ''c''))
     (Obj 2) = ''#a.c''"
proof -
  let ?s = "fst (id_part initial Builder ''a'')"
  let ?s1 = "fst (invoke M_element ?s (Obj 0) ''div'')"
  let ?s2 = "fst (invoke M_class ?s1 (Obj 0) ''c'')"
  have l: "length (objs ?s) = 1" by code_simp
  have v: "valid ?s (Obj 0)" using l by (simp add: valid_def)
  have i1: "invoke M_element ?s (Obj 0) ''div'' = (?s1, Inl (Error order_message))" by code_simp
  have i2: "invoke M_class ?s1 (Obj 0) ''c'' = (?s2, Inr (Obj 2))" by code_simp
  have t: "string_of ?s (Obj 0) = ''#a''" "stringify ?s (Obj 0) = ''#a''" by code_simp+
  show ?thesis using part_calls_do_not_mutate [OF v i1 i2] t by simp
qed

text \<open>
  C4. Calling \<^verbatim>\<open>element\<close>, \<^verbatim>\<open>id\<close> or \<^verbatim>\<open>pseudoElement\<close> on the object that a call of
  the same method has just returned throws the error "Element, id and pseudo-element should not
  occur more then one time inside the selector", which is not the order error: the
  order check passes on equal numbers and the counter read from the receiver is 1.
\<close>

theorem same_singleton_twice_in_a_row:
  assumes "valid s this"
  shows "(element s this v = (s1, Inr r1) \<longrightarrow>
            snd (element s1 r1 v') = Inl (Error duplicate_message)) \<and>
         (id_part s this v = (s1, Inr r1) \<longrightarrow>
            snd (id_part s1 r1 v') = Inl (Error duplicate_message)) \<and>
         (pseudoElement s this v = (s1, Inr r1) \<longrightarrow>
            checkOrder s1 r1 6 = None \<and>
            snd (pseudoElement s1 r1 v') = Inl (Error duplicate_message)) \<and>
         Error duplicate_message \<noteq> Error order_message"
proof -
  have step: "snd (invoke m s1 r1 v') = Inl (Error duplicate_message) \<and>
              checkOrder s1 r1 (rank m) = None"
    if i: "invoke m s this v = (s1, Inr r1)" and m: "singleton m" for m
  proof -
    have v1: "valid s1 r1" using assms i invoke_valid by blast
    have o: "order_of s1 r1 = Some (rank m)" using invoke_new [OF assms i] by simp
    have "counter_of m s1 r1 = 1"
      using invoke_new [OF assms i] m by (cases m) (simp_all add: singleton_def)
    then have "snd (invoke m s1 r1 v') = Inl (Error duplicate_message)"
      using v1 o by (simp add: invoke_duplicate_error)
    then show ?thesis using o by (simp add: checkOrder_def)
  qed
  show ?thesis
    using step [of M_element] step [of M_id] step [of M_pseudoElement] messages_differ
    by (simp add: singleton_def)
qed

theorem same_singleton_twice_in_a_row_witness:
  "snd (element (fst (element initial Builder ''div'')) (Obj 0) ''p'') = Inl (Error duplicate_message) \<and>
   snd (id_part (fst (id_part initial Builder ''a'')) (Obj 0) ''b'') = Inl (Error duplicate_message) \<and>
   snd (pseudoElement (fst (pseudoElement initial Builder ''after'')) (Obj 0) ''before'')
     = Inl (Error duplicate_message)"
proof -
  have v: "valid initial Builder" by (simp add: valid_def)
  have a: "element initial Builder ''div'' = (fst (element initial Builder ''div''), Inr (Obj 0))"
    by code_simp
  have b: "id_part initial Builder ''a'' = (fst (id_part initial Builder ''a''), Inr (Obj 0))"
    by code_simp
  have c: "pseudoElement initial Builder ''after'' =
             (fst (pseudoElement initial Builder ''after''), Inr (Obj 0))"
    by code_simp
  show ?thesis
    using same_singleton_twice_in_a_row [OF v, of "''div''" "fst (element initial Builder ''div'')" "Obj 0" "''p''"]
      same_singleton_twice_in_a_row [OF v, of "''a''" "fst (id_part initial Builder ''a'')" "Obj 0" "''b''"]
      same_singleton_twice_in_a_row [OF v, of "''after''" "fst (pseudoElement initial Builder ''after'')" "Obj 0" "''before''"]
      a b c
    by blast
qed

text \<open>
  C5. \<^verbatim>\<open>combine(A, c, B)\<close> returns an object whose \<^verbatim>\<open>stringify()\<close> is the text of \<open>A\<close>, a
  space, \<open>c\<close>, a space and the text of \<open>B\<close>. The object is new, and no object of the
  store before the call is written: \<open>A\<close> and \<open>B\<close> stringify as before.
\<close>

theorem combine_joins_texts:
  assumes "valid s a" and "valid s b" and "combine s a c b = (s', r)"
  shows "stringify s' r = stringify s a @ '' '' @ c @ '' '' @ stringify s b \<and>
         preserved s s' \<and> \<not> valid s r \<and> valid s' r \<and>
         stringify s' a = stringify s a \<and> stringify s' b = stringify s b"
proof -
  have f: "preserved s s'" "r = Obj (length (objs s))"
    "length (objs s') = Suc (length (objs s))"
    using combine_frame [OF assms] by simp_all
  have "stringify s' r = stringify s a @ '' '' @ c @ '' '' @ stringify s b"
    using combine_new [OF assms] by (simp add: stringify_def)
  moreover have "\<not> valid s r" "valid s' r" using f by (simp_all add: valid_def)
  moreover have "stringify s' a = stringify s a" "stringify s' b = stringify s b"
    using f(1) assms(1,2) by (simp_all add: stringify_def preserved_read)
  ultimately show ?thesis using f(1) by simp
qed

theorem combine_joins_texts_witness:
  "stringify (fst (combine (fst (chain initial Builder [(M_element, ''div''), (M_id, ''main'')])) (Obj 0) ''+'' (Obj 1))) (Obj 2)
     = ''div + div#main'' \<and>
   stringify (fst (combine (fst (chain initial Builder [(M_element, ''div''), (M_id, ''main'')])) (Obj 0) ''+'' (Obj 1))) (Obj 0)
     = ''div'' \<and>
   stringify (fst (combine (fst (chain initial Builder [(M_element, ''div''), (M_id, ''main'')])) (Obj 0) ''+'' (Obj 1))) (Obj 1)
     = ''div#main''"
proof -
  let ?s = "fst (chain initial Builder [(M_element, ''div''), (M_id, ''main'')])"
  have l: "length (objs ?s) = 2" by code_simp
  have a: "valid ?s (Obj 0)" and b: "valid ?s (Obj 1)" using l by (simp_all add: valid_def)
  have c: "combine ?s (Obj 0) ''+'' (Obj 1) = (fst (combine ?s (Obj 0) ''+'' (Obj 1)), Obj 2)"
    by code_simp
  have "stringify ?s (Obj 0) = ''div''" "stringify ?s (Obj 1) = ''div#main''" by code_simp+
  then show ?thesis using combine_joins_texts [OF a b c] by simp
qed

text \<open>
  C6. Each call that returns appends its value to the text of the receiver:
  \<^verbatim>\<open>element\<close> the value itself, \<^verbatim>\<open>id\<close> the value after \<^verbatim>\<open>#\<close>, \<^verbatim>\<open>class\<close> after \<^verbatim>\<open>.\<close>, \<^verbatim>\<open>attr\<close>
  between \<^verbatim>\<open>[\<close> and \<^verbatim>\<open>]\<close>, \<^verbatim>\<open>pseudoClass\<close> after \<^verbatim>\<open>:\<close> and \<^verbatim>\<open>pseudoElement\<close> after
  \<^verbatim>\<open>::\<close>. The two examples of the documentation give \<^verbatim>\<open>#main.container.editable\<close> and
  \<^verbatim>\<open>a[href$=".png"]:focus\<close>.
\<close>

theorem parts_append_with_prefix:
  assumes "valid s this"
  shows \<open>(element s this v = (s', Inr r) \<longrightarrow> stringify s' r = stringify s this @ v) \<and>
         (id_part s this v = (s', Inr r) \<longrightarrow> stringify s' r = stringify s this @ ''#'' @ v) \<and>
         (class_part s this v = (s', Inr r) \<longrightarrow> stringify s' r = stringify s this @ ''.'' @ v) \<and>
         (attr s this v = (s', Inr r) \<longrightarrow>
            stringify s' r = stringify s this @ ''['' @ v @ '']'') \<and>
         (pseudoClass s this v = (s', Inr r) \<longrightarrow>
            stringify s' r = stringify s this @ '':'' @ v) \<and>
         (pseudoElement s this v = (s', Inr r) \<longrightarrow>
            stringify s' r = stringify s this @ ''::'' @ v) \<and>
         build [(M_id, ''main''), (M_class, ''container''), (M_class, ''editable'')]
           = Inr ''#main.container.editable'' \<and>
         build [(M_element, ''a''), (M_attr, ''href$=".png"''), (M_pseudoClass, ''focus'')]
           = Inr ''a[href$=".png"]:focus''\<close>
proof -
  have step: "stringify s' r = stringify s this @ part_text m v"
    if "invoke m s this v = (s', Inr r)" for m
    using invoke_new [OF assms that] by (simp add: stringify_def)
  have "build [(M_id, ''main''), (M_class, ''container''), (M_class, ''editable'')]
          = Inr ''#main.container.editable''"
    by code_simp
  moreover
  have \<open>build [(M_element, ''a''), (M_attr, ''href$=".png"''), (M_pseudoClass, ''focus'')]
          = Inr ''a[href$=".png"]:focus''\<close>
    by code_simp
  ultimately show ?thesis
    using step [of M_element] step [of M_id] step [of M_class] step [of M_attr]
      step [of M_pseudoClass] step [of M_pseudoElement]
    by simp
qed

theorem parts_append_with_prefix_witness:
  "stringify (fst (element initial Builder ''div'')) (Obj 0) = ''div'' \<and>
   stringify (fst (id_part initial Builder ''main'')) (Obj 0) = ''#main'' \<and>
   stringify (fst (class_part initial Builder ''big'')) (Obj 0) = ''.big'' \<and>
   stringify (fst (attr initial Builder ''href'')) (Obj 0) = ''[href]'' \<and>
   stringify (fst (pseudoClass initial Builder ''hover'')) (Obj 0) = '':hover'' \<and>
   stringify (fst (pseudoElement initial Builder ''after'')) (Obj 0) = ''::after''"
proof -
  have v: "valid initial Builder" by (simp add: valid_def)
  have e: "stringify initial Builder = []" by code_simp
  have "element initial Builder ''div'' = (fst (element initial Builder ''div''), Inr (Obj 0))"
    "id_part initial Builder ''main'' = (fst (id_part initial Builder ''main''), Inr (Obj 0))"
    "class_part initial Builder ''big'' = (fst (class_part initial Builder ''big''), Inr (Obj 0))"
    "attr initial Builder ''href'' = (fst (attr initial Builder ''href''), Inr (Obj 0))"
    "pseudoClass initial Builder ''hover'' = (fst (pseudoClass initial Builder ''hover''), Inr (Obj 0))"
    "pseudoElement initial Builder ''after'' = (fst (pseudoElement initial Builder ''after''), Inr (Obj 0))"
    by code_simp+
  then show ?thesis
    using e
      parts_append_with_prefix [OF v, of "''div''" "fst (element initial Builder ''div'')" "Obj 0"]
      parts_append_with_prefix [OF v, of "''main''" "fst (id_part initial Builder ''main'')" "Obj 0"]
      parts_append_with_prefix [OF v, of "''big''" "fst (class_part initial Builder ''big'')" "Obj 0"]
      parts_append_with_prefix [OF v, of "''href''" "fst (attr initial Builder ''href'')" "Obj 0"]
      parts_append_with_prefix [OF v, of "''hover''" "fst (pseudoClass initial Builder ''hover'')" "Obj 0"]
      parts_append_with_prefix [OF v, of "''after''" "fst (pseudoElement initial Builder ''after'')" "Obj 0"]
    by simp
qed

text \<open>
  C7. When the parser returns an object, \<^verbatim>\<open>fromJSON\<close> returns an object whose own
  properties are exactly the parsed fields and whose prototype is \<open>proto\<close>: a property
  among the parsed fields is read from them, any other is read through \<open>proto\<close>, and
  nothing of \<open>proto\<close> is copied. With the text \<^verbatim>\<open>{"radius":10}\<close> parsed to the object
  with the one field \<^verbatim>\<open>radius\<close> = 10, the result has \<^verbatim>\<open>radius\<close> 10. When the parser throws,
  \<^verbatim>\<open>fromJSON\<close> throws the same error.
\<close>

theorem fromJSON_object:
  \<open>(parse json = Inr (JObj kvs) \<longrightarrow>
      fromJSON parse proto json = Inr \<lparr>props = kvs, prototype = proto\<rparr> \<and>
      (\<forall>k x. map_of kvs k = Some x \<longrightarrow>
         get_prop \<lparr>props = kvs, prototype = proto\<rparr> k = Some (Inl x)) \<and>
      (\<forall>k. map_of kvs k = None \<longrightarrow>
         get_prop \<lparr>props = kvs, prototype = proto\<rparr> k = map_option Inr (proto k))) \<and>
   (parse ''{"radius":10}'' = Inr (JObj [(''radius'', JNum ten)]) \<longrightarrow>
      (\<exists>obj. fromJSON parse proto ''{"radius":10}'' = Inr obj \<and>
         props obj = [(''radius'', JNum ten)] \<and>
         get_prop obj ''radius'' = Some (Inl (JNum ten)))) \<and>
   (parse json = Inl e \<longrightarrow> fromJSON parse proto json = Inl e)\<close>
  by (simp add: fromJSON_def get_prop_def)

theorem fromJSON_object_witness:
  \<open>fromJSON (\<lambda>t. if t = ''{"radius":10}'' then Inr (JObj [(''radius'', JNum (10::int))]) else Inl ''SyntaxError'')
      (\<lambda>k. if k = ''getArea'' then Some True else None) ''{"radius":10}''
     = Inr \<lparr>props = [(''radius'', JNum 10)], prototype = (\<lambda>k. if k = ''getArea'' then Some True else None)\<rparr> \<and>
   get_prop \<lparr>props = [(''radius'', JNum (10::int))], prototype = (\<lambda>k. if k = ''getArea'' then Some True else None)\<rparr> ''radius''
     = Some (Inl (JNum 10)) \<and>
   get_prop \<lparr>props = [(''radius'', JNum (10::int))], prototype = (\<lambda>k. if k = ''getArea'' then Some True else None)\<rparr> ''getArea''
     = Some (Inr True) \<and>
   fromJSON (\<lambda>t. if t = ''{"radius":10}'' then Inr (JObj [(''radius'', JNum (10::int))]) else Inl ''SyntaxError'')
      (\<lambda>k. if k = ''getArea'' then Some True else None) ''{"radius":'' = Inl ''SyntaxError''\<close>
  using fromJSON_object [of "\<lambda>t. if t = ''{\"radius\":10}'' then Inr (JObj [(''radius'', JNum (10::int))]) else Inl ''SyntaxError''"
      \<open>''{"radius":10}''\<close> "[(''radius'', JNum (10::int))]" "\<lambda>k. if k = ''getArea'' then Some True else None" 10 "''SyntaxError''"]
    fromJSON_object [of "\<lambda>t. if t = ''{\"radius\":10}'' then Inr (JObj [(''radius'', JNum (10::int))]) else Inl ''SyntaxError''"
      \<open>''{"radius":''\<close> "[]" "\<lambda>k. if k = ''getArea'' then Some True else None" 10 "''SyntaxError''"]
  by simp

text \<open>
  C8. The object made by \<^verbatim>\<open>new Rectangle(w, h)\<close> has \<^verbatim>\<open>width\<close> \<open>w\<close> and \<^verbatim>\<open>height\<close> \<open>h\<close>,
  and \<^verbatim>\<open>getArea()\<close> returns \<open>w * h\<close>. The area is computed from the fields the object
  has when \<^verbatim>\<open>getArea\<close> is called: after an assignment to \<^verbatim>\<open>width\<close> or \<^verbatim>\<open>height\<close> it is
  the product of the new values.
\<close>

theorem Rectangle_getArea:
  "width (Rectangle w h) = w \<and> height (Rectangle w h) = h \<and>
   getArea (Rectangle w h) = w * h \<and>
   getArea ((Rectangle w h)\<lparr>width := w'\<rparr>) = w' * h \<and>
   getArea ((Rectangle w h)\<lparr>height := h'\<rparr>) = w * h'"
  by (simp add: Rectangle_def getArea_def)

text \<open>
  C9. Along a chain of calls that all return, started on \<^verbatim>\<open>cssSelectorBuilder\<close>, the
  numbers of the methods called never decrease; the object reached has as its order the
  number of the last method called, and its counters \<^verbatim>\<open>elementNum\<close>, \<^verbatim>\<open>idNum\<close> and
  \<^verbatim>\<open>pseodoEl\<close> read at most 1. A further call that returns gives an object whose order is
  the number of the method called, not below the order of the receiver, with counters
  at most 1. A further call whose number is below the order of the receiver throws
  the order error, and one whose counter already reads 1 on the receiver throws: in
  both cases no object is returned.
\<close>

theorem lineage_invariant:
  assumes "builder s0 = cssSelectorBuilder" and "chain s0 Builder cs = (s, Inr r)"
    and "invoke m s r v = (s', res)"
  shows "sorted (map (\<lambda>c. rank (fst c)) cs) \<and>
    (cs \<noteq> [] \<longrightarrow> order_of s r = Some (rank (fst (last cs)))) \<and>
    elementNum_of s r \<le> 1 \<and> idNum_of s r \<le> 1 \<and> pseodoEl_of s r \<le> 1 \<and>
    (\<forall>r'. res = Inr r' \<longrightarrow>
       order_of s' r' = Some (rank m) \<and>
       (\<forall>k. order_of s r = Some k \<longrightarrow> k \<le> rank m) \<and>
       elementNum_of s' r' \<le> 1 \<and> idNum_of s' r' \<le> 1 \<and> pseodoEl_of s' r' \<le> 1) \<and>
    ((\<exists>k. order_of s r = Some k \<and> rank m < k) \<longrightarrow> res = Inl (Error order_message)) \<and>
    (0 < counter_of m s r \<longrightarrow> (\<exists>e. res = Inl e))"
proof -
  have vb: "valid s0 Builder" by (simp add: valid_def)
  have v: "valid s r" using vb assms(2) by (rule chain_valid)
  have "preserved s0 s" using vb assms(2) by (rule chain_preserved)
  then have b: "builder s = cssSelectorBuilder" using assms(1) by (simp add: preserved_def)
  have so: "sorted (map (\<lambda>c. rank (fst c)) cs)" using vb assms(2) by (rule chain_sorted)
  have la: "order_of s r = Some (rank (fst (last cs)))" if "cs \<noteq> []"
    using lineage_step [OF vb assms(1,2) that] by simp
  have cn: "elementNum_of s r \<le> 1 \<and> idNum_of s r \<le> 1 \<and> pseodoEl_of s r \<le> 1"
    using assms(1,2) by (rule lineage_counters)
  have res: "snd (invoke m s r v) = res" using assms(3) by simp
  have ok: "order_of s' r' = Some (rank m) \<and>
            (\<forall>k. order_of s r = Some k \<longrightarrow> k \<le> rank m) \<and>
            elementNum_of s' r' \<le> 1 \<and> idNum_of s' r' \<le> 1 \<and> pseodoEl_of s' r' \<le> 1"
    if "res = Inr r'" for r'
  proof -
    have i: "invoke m s r v = (s', Inr r')" using assms(3) that by simp
    have "\<And>k. order_of s r = Some k \<Longrightarrow> k \<le> rank m"
      using v i by (rule invoke_success_order)
    then show ?thesis
      using invoke_new [OF v i] b by (simp add: cssSelectorBuilder_def)
  qed
  have oe: "res = Inl (Error order_message)" if "\<exists>k. order_of s r = Some k \<and> rank m < k"
    using that v res invoke_order_error by blast
  have de: "\<exists>e. res = Inl e" if "0 < counter_of m s r"
  proof -
    have "snd (invoke m s r v) = Inl (Error order_message) \<or>
          snd (invoke m s r v) = Inl (Error duplicate_message)"
      using that by (simp add: invoke_result [OF v])
    then show ?thesis using res by auto
  qed
  show ?thesis using so la cn ok oe de by blast
qed


theorem lineage_invariant_witness:
  "order_of (fst (chain initial Builder [(M_element, ''div''), (M_class, ''a'')])) (Obj 1) = Some 3 \<and>
   elementNum_of (fst (chain initial Builder [(M_element, ''div''), (M_class, ''a'')])) (Obj 1) \<le> 1 \<and>
   order_of (fst (invoke M_pseudoElement
       (fst (chain initial Builder [(M_element, ''div''), (M_class, ''a'')])) (Obj 1) ''after''))
     (Obj 2) = Some 6 \<and>
   snd (invoke M_id (fst (chain initial Builder [(M_element, ''div''), (M_class, ''a'')])) (Obj 1) ''x'')
     = Inl (Error order_message)"
proof -
  let ?cs = "[(M_element, ''div''), (M_class, ''a'')]"
  let ?s = "fst (chain initial Builder ?cs)"
  have b: "builder initial = cssSelectorBuilder" by (simp add: initial_def)
  have c: "chain initial Builder ?cs = (?s, Inr (Obj 1))" by code_simp
  have i1: "invoke M_pseudoElement ?s (Obj 1) ''after''
              = (fst (invoke M_pseudoElement ?s (Obj 1) ''after''), Inr (Obj 2))"
    by code_simp
  have i2: "invoke M_id ?s (Obj 1) ''x''
              = (fst (invoke M_id ?s (Obj 1) ''x''), snd (invoke M_id ?s (Obj 1) ''x''))"
    by simp
  show ?thesis
    using lineage_invariant [OF b c i1] lineage_invariant [OF b c i2] by simp
qed

text \<open>
  C10. \<^verbatim>\<open>stringify()\<close> of \<^verbatim>\<open>cssSelectorBuilder\<close> in the initial store is the empty string.
  As long as the literal has its initial properties, a call of any of the six methods on
  \<^verbatim>\<open>cssSelectorBuilder\<close> returns an object, and so does a call on an object returned by
  \<^verbatim>\<open>combine\<close>: that object has only its text of its own, so its order is undefined,
  \<^verbatim>\<open>checkOrder\<close> passes, and its counters read 0.
\<close>

theorem first_call_returns:
  "stringify initial Builder = [] \<and>
   (\<exists>s' r. invoke m initial Builder v = (s', Inr r)) \<and>
   (builder s = cssSelectorBuilder \<longrightarrow>
      order_of s Builder = None \<and> checkOrder s Builder (rank m) = None \<and>
      (\<exists>s' r. invoke m s Builder v = (s', Inr r)) \<and>
      (valid s a \<and> valid s b \<and> combine s a c b = (s1, q) \<longrightarrow>
         order_of s1 q = None \<and> checkOrder s1 q (rank m) = None \<and>
         elementNum_of s1 q = 0 \<and> idNum_of s1 q = 0 \<and> pseodoEl_of s1 q = 0 \<and>
         (\<exists>s' r. invoke m s1 q v = (s', Inr r))))"
proof -
  have base: "order_of t Builder = None \<and> checkOrder t Builder (rank m) = None \<and>
              (\<exists>s' r. invoke m t Builder v = (s', Inr r))"
    if b: "builder t = cssSelectorBuilder" for t
  proof -
    have o: "order_of t Builder = None" using b by (simp add: reads cssSelectorBuilder_def)
    have "counter_of m t Builder = 0"
      using b by (cases m) (simp_all add: reads cssSelectorBuilder_def)
    then have "\<exists>s'. invoke m t Builder v = (s', Inr (Obj (length (objs t))))"
      using o by (intro invoke_ok) (simp_all add: valid_def)
    then show ?thesis using o by (auto simp: checkOrder_def)
  qed
  have comb: "order_of s1 q = None \<and> checkOrder s1 q (rank m) = None \<and>
              elementNum_of s1 q = 0 \<and> idNum_of s1 q = 0 \<and> pseodoEl_of s1 q = 0 \<and>
              (\<exists>s' r. invoke m s1 q v = (s', Inr r))"
    if b: "builder s = cssSelectorBuilder" and va: "valid s a" and vb: "valid s b"
      and c: "combine s a c b = (s1, q)"
  proof -
    have n: "order_of s1 q = None" "elementNum_of s1 q = 0" "idNum_of s1 q = 0"
      "pseodoEl_of s1 q = 0"
      using combine_new [OF va vb c] b by (simp_all add: cssSelectorBuilder_def)
    have vq: "valid s1 q" using combine_frame [OF va vb c] by (simp add: valid_def)
    have "counter_of m s1 q = 0" using n by (cases m) simp_all
    then have "\<exists>s'. invoke m s1 q v = (s', Inr (Obj (length (objs s1))))"
      using vq n(1) by (intro invoke_ok) simp_all
    then show ?thesis using n by (auto simp: checkOrder_def)
  qed
  have "stringify initial Builder = []" by code_simp
  moreover have "builder initial = cssSelectorBuilder" by (simp add: initial_def)
  ultimately show ?thesis using base comb by blast
qed

theorem first_call_returns_witness:
  "builder initial = cssSelectorBuilder \<and>
   (\<exists>s' r. invoke M_element
      (fst (combine (fst (chain initial Builder [(M_element, ''div''), (M_pseudoElement, ''after'')]))
         (Obj 0) ''~'' (Obj 1))) (Obj 2) ''p'' = (s', Inr r))"
proof -
  let ?s = "fst (chain initial Builder [(M_element, ''div''), (M_pseudoElement, ''after'')])"
  have b: "builder ?s = cssSelectorBuilder" by code_simp
  have l: "length (objs ?s) = 2" by code_simp
  have v: "valid ?s (Obj 0)" "valid ?s (Obj 1)" using l by (simp_all add: valid_def)
  have c: "combine ?s (Obj 0) ''~'' (Obj 1) = (fst (combine ?s (Obj 0) ''~'' (Obj 1)), Obj 2)"
    by code_simp
  have "builder initial = cssSelectorBuilder" by (simp add: initial_def)
  then show ?thesis
    using first_call_returns [of M_element "''p''" ?s "Obj 0" "Obj 1" "''~''"
        "fst (combine ?s (Obj 0) ''~'' (Obj 1))" "Obj 2"] b v c
    by blast
qed

end
